theory Spec2Isabelle
  imports Main
begin

section \<open>The JavaScript values the examples rely on\<close>

text \<open>
  A \<open>Date\<close> object holds a time value in milliseconds, or is the invalid date (time value
  \<open>NaN\<close>). The clock read by \<open>new Date()\<close>, the parser behind \<open>new Date(string)\<close> and the
  formatter \<open>toLocaleDateString\<close> belong to the language runtime: the operations below
  take them as parameters.
\<close>

datatype jsdate = Date int | InvalidDate

text \<open>
  The repository's counter \<open>nextId\<close> is a JavaScript number, an IEEE double. It starts at
  \<open>1\<close> and is only ever changed by \<open>nextId++\<close>. On the integers up to \<open>2^53\<close> the
  addition is exact; at \<open>2^53\<close> the sum \<open>2^53 + 1\<close> is not representable and rounds back to
  \<open>2^53\<close>, so the counter stays there. \<open>incr\<close> is that postfix increment's new value on the
  values the counter can take (\<open>1 .. 2^53\<close>, see \<open>nextId_run\<close> below).
\<close>

definition two53 :: nat where
  "two53 = 9007199254740992"

definition incr :: "nat \<Rightarrow> nat" where
  "incr n = (if n < two53 then n + 1 else n)"

text \<open>
  \<open>String(n)\<close> on a non-negative integer below \<open>10^21\<close> is its decimal numeral without
  leading zeros.
\<close>

definition digit_char :: "nat \<Rightarrow> char" where
  "digit_char d = (''0123456789'' ! d)"

fun String_num :: "nat \<Rightarrow> string" where
  "String_num n =
     (if n < 10 then [digit_char n] else String_num (n div 10) @ [digit_char (n mod 10)])"

declare String_num.simps [simp del]

text \<open>
  A JavaScript \<open>Map\<close> iterates in insertion order: \<open>set\<close> on a key that is present replaces
  the value where the entry stands, \<open>set\<close> on a new key appends the entry, \<open>delete\<close>
  removes the entry. It is modelled as an association list in iteration order.
\<close>

type_synonym ('k, 'v) jsmap = "('k \<times> 'v) list"

fun Map_set :: "('k, 'v) jsmap \<Rightarrow> 'k \<Rightarrow> 'v \<Rightarrow> ('k, 'v) jsmap" where
  "Map_set [] k v = [(k, v)]"
| "Map_set ((k', v') # m) k v = (if k' = k then (k, v) # m else (k', v') # Map_set m k v)"

fun Map_get :: "('k, 'v) jsmap \<Rightarrow> 'k \<Rightarrow> 'v option" where
  "Map_get [] k = None"
| "Map_get ((k', v') # m) k = (if k' = k then Some v' else Map_get m k)"

definition Map_has :: "('k, 'v) jsmap \<Rightarrow> 'k \<Rightarrow> bool" where
  "Map_has m k = (Map_get m k \<noteq> None)"

definition Map_delete :: "('k, 'v) jsmap \<Rightarrow> 'k \<Rightarrow> ('k, 'v) jsmap" where
  "Map_delete m k = filter (\<lambda>(k', v'). k' \<noteq> k) m"

definition Map_values :: "('k, 'v) jsmap \<Rightarrow> 'v list" where
  "Map_values m = map snd m"

section \<open>The repository example\<close>

subsection \<open>Entity, input shapes, errors\<close>

text \<open>
  At run time a \<open>User\<close> and an update patch are plain objects, and the spread in \<open>update\<close>
  copies whatever own properties it finds. An object is therefore modelled by its own
  properties, a partial map from property names to values. Of a value the code only
  ever asks whether it is a given string; beyond the strings, \<open>undefined\<close> and the \<open>Date\<close>
  objects, \<open>Other n\<close> stands for any other value (\<open>null\<close>, a number, a boolean, another
  object), told apart by \<open>n\<close>.
\<close>

datatype jsval = Undefined | Str string | DateObj jsdate | Other nat

type_synonym jsobject = "string \<rightharpoonup> jsval"

text \<open>Reading a property, \<open>obj.p\<close>: an absent property reads as \<open>undefined\<close>.\<close>

definition get_prop :: "jsobject \<Rightarrow> string \<Rightarrow> jsval" where
  "get_prop obj p = (case obj p of None \<Rightarrow> Undefined | Some v \<Rightarrow> v)"

type_synonym User = jsobject

definition u_id :: "User \<Rightarrow> jsval" where
  "u_id user = get_prop user ''id''"

definition u_name :: "User \<Rightarrow> jsval" where
  "u_name user = get_prop user ''name''"

definition u_email :: "User \<Rightarrow> jsval" where
  "u_email user = get_prop user ''email''"

definition u_createdAt :: "User \<Rightarrow> jsval" where
  "u_createdAt user = get_prop user ''createdAt''"

text \<open>The object literal \<open>{ id: i, name: n, email: e, createdAt: c }\<close> of \<open>create\<close>.\<close>

definition new_User :: "string \<Rightarrow> string \<Rightarrow> string \<Rightarrow> jsdate \<Rightarrow> User" where
  "new_User i n e c =
     [''id'' \<mapsto> Str i, ''name'' \<mapsto> Str n, ''email'' \<mapsto> Str e, ''createdAt'' \<mapsto> DateObj c]"

text \<open>\<open>create\<close> reads \<open>data.name\<close> and \<open>data.email\<close>, which \<open>CreateUserDto\<close> requires to be strings.\<close>

record CreateUserDto =
  c_name :: string
  c_email :: string

text \<open>
  \<open>UpdateUserDto\<close> declares two optional string properties. The type checker accepts for it
  any object whose \<open>name\<close> and \<open>email\<close>, where present, are strings or \<open>undefined\<close>; an
  object that is not written as a literal at the call may carry further properties, of
  any value, \<open>id\<close> and \<open>createdAt\<close> among them.
\<close>

type_synonym UpdateUserDto = jsobject

definition string_or_undefined :: "jsval option \<Rightarrow> bool" where
  "string_or_undefined v =
     (case v of None \<Rightarrow> True | Some Undefined \<Rightarrow> True | Some (Str x) \<Rightarrow> True | Some other \<Rightarrow> False)"

definition accepted_UpdateUserDto :: "jsobject \<Rightarrow> bool" where
  "accepted_UpdateUserDto data =
     (string_or_undefined (data ''name'') \<and> string_or_undefined (data ''email''))"

text \<open>
  The code throws plain \<open>Error\<close> objects that differ in their message. The two messages
  are the error kinds of the specification.
\<close>

datatype error = Error string

definition NotFoundError :: "string \<Rightarrow> error" where
  "NotFoundError i = Error (''User with id '' @ i @ '' not found'')"

definition DuplicateError :: "string \<Rightarrow> error" where
  "DuplicateError e = Error (''User with email '' @ e @ '' already exists'')"

subsection \<open>\<open>InMemoryUserRepository\<close>\<close>

text \<open>
  The object's two private fields are the state. Every method runs to completion without
  an \<open>await\<close>, so a call is one step from a state to a result and a state. A method that
  throws leaves the state as it was at the \<open>throw\<close>.
\<close>

record Repo =
  users :: "(string, User) jsmap"
  nextId :: nat

definition new_Repo :: Repo where
  "new_Repo = \<lparr>users = [], nextId = 1\<rparr>"

text \<open>
  In \<open>create\<close> the key \<open>user.id\<close> passed to \<open>Map.set\<close> is the string just built by
  \<open>String(this.nextId++)\<close>.
\<close>

definition create :: "Repo \<Rightarrow> CreateUserDto \<Rightarrow> jsdate \<Rightarrow> User \<times> Repo" where
  "create s data now =
     (let i = String_num (nextId s);
          user = new_User i (c_name data) (c_email data) now;
          s1 = s\<lparr>nextId := incr (nextId s)\<rparr>
      in (user, s1\<lparr>users := Map_set (users s1) i user\<rparr>))"

definition findById :: "Repo \<Rightarrow> string \<Rightarrow> User option" where
  "findById s i = Map_get (users s) i"

fun findByEmail_loop :: "User list \<Rightarrow> string \<Rightarrow> User option" where
  "findByEmail_loop [] email = None"
| "findByEmail_loop (user # rest) email =
     (if u_email user = Str email then Some user else findByEmail_loop rest email)"

definition findByEmail :: "Repo \<Rightarrow> string \<Rightarrow> User option" where
  "findByEmail s email = findByEmail_loop (Map_values (users s)) email"

definition findAll :: "Repo \<Rightarrow> User list" where
  "findAll s = Map_values (users s)"

text \<open>
  The object spread \<open>{...user, ...data}\<close>: a new object with every own property of \<open>user\<close>
  and every own property of \<open>data\<close>; where both have a property, the value in \<open>data\<close> wins,
  also when that value is \<open>undefined\<close>.
\<close>

definition spread :: "User \<Rightarrow> UpdateUserDto \<Rightarrow> User" where
  "spread user data = user ++ data"

definition update :: "Repo \<Rightarrow> string \<Rightarrow> UpdateUserDto \<Rightarrow> (error + User) \<times> Repo" where
  "update s i data =
     (case Map_get (users s) i of
        None \<Rightarrow> (Inl (NotFoundError i), s)
      | Some user \<Rightarrow>
          (let updated = spread user data
           in (Inr updated, s\<lparr>users := Map_set (users s) i updated\<rparr>)))"

definition delete :: "Repo \<Rightarrow> string \<Rightarrow> (error + unit) \<times> Repo" where
  "delete s i =
     (if \<not> Map_has (users s) i then (Inl (NotFoundError i), s)
      else (Inr (), s\<lparr>users := Map_delete (users s) i\<rparr>))"

subsection \<open>\<open>UserService\<close>\<close>

text \<open>
  The service holds the repository; its state is the repository's. The calls are those
  of a single caller, each run to completion before the next.
\<close>

definition registerUser :: "Repo \<Rightarrow> string \<Rightarrow> string \<Rightarrow> jsdate \<Rightarrow> (error + User) \<times> Repo" where
  "registerUser s name email now =
     (case findByEmail s email of
        Some existing \<Rightarrow> (Inl (DuplicateError email), s)
      | None \<Rightarrow>
          (let (user, s') = create s \<lparr>c_name = name, c_email = email\<rparr> now
           in (Inr user, s')))"

definition getUserProfile :: "Repo \<Rightarrow> string \<Rightarrow> User option" where
  "getUserProfile s i = findById s i"

definition updateUserName :: "Repo \<Rightarrow> string \<Rightarrow> string \<Rightarrow> (error + User) \<times> Repo" where
  "updateUserName s i name = update s i [''name'' \<mapsto> Str name]"

definition removeUser :: "Repo \<Rightarrow> string \<Rightarrow> (error + unit) \<times> Repo" where
  "removeUser s i = delete s i"

subsection \<open>Sequences of calls\<close>

text \<open>
  A call of one of the repository's six methods. \<open>Create\<close> carries the clock value that
  \<open>new Date()\<close> reads during the call.
\<close>

datatype op =
    Create CreateUserDto jsdate
  | FindById string
  | FindByEmail string
  | FindAll
  | Update string UpdateUserDto
  | Delete string

text \<open>
  The state after a call. The three finders do not assign to a field. A call that throws
  is caught by the caller, who goes on with the next call.
\<close>

fun step :: "Repo \<Rightarrow> op \<Rightarrow> Repo" where
  "step s (Create data now) = snd (create s data now)"
| "step s (FindById i) = s"
| "step s (FindByEmail email) = s"
| "step s FindAll = s"
| "step s (Update i data) = snd (update s i data)"
| "step s (Delete i) = snd (delete s i)"

definition run :: "Repo \<Rightarrow> op list \<Rightarrow> Repo" where
  "run s ops = foldl step s ops"

fun is_Create :: "op \<Rightarrow> bool" where
  "is_Create (Create data now) = True"
| "is_Create _ = False"

definition creates :: "op list \<Rightarrow> nat" where
  "creates ops = length (filter is_Create ops)"

text \<open>The identifiers that the \<open>create\<close> calls of a sequence return, in call order.\<close>

fun created_ids :: "Repo \<Rightarrow> op list \<Rightarrow> jsval list" where
  "created_ids s [] = []"
| "created_ids s (c # ops) =
     (case c of
        Create data now \<Rightarrow> u_id (fst (create s data now)) # created_ids (step s c) ops
      | _ \<Rightarrow> created_ids (step s c) ops)"

text \<open>
  The number that an identifier encodes (\<open>Number(id)\<close> on a string of decimal digits).
\<close>

definition digit_value :: "char \<Rightarrow> nat" where
  "digit_value c = of_char c - 48"

definition decimal_value :: "string \<Rightarrow> nat" where
  "decimal_value cs = foldl (\<lambda>a c. 10 * a + digit_value c) 0 cs"

text \<open>
  What holds of every state reached from \<open>new_Repo\<close>: the keys, in the map's iteration
  order, are the numerals of strictly increasing numbers that the counter has already
  passed (or sits on, at \<open>2^53\<close>).
\<close>

definition ordered_Repo :: "Repo \<Rightarrow> bool" where
  "ordered_Repo s =
     (nextId s \<le> two53 \<and>
      (\<exists>ks. map fst (users s) = map String_num ks \<and> sorted_wrt (<) ks \<and>
         (\<forall>k \<in> set ks. k < nextId s \<or> (k = two53 \<and> nextId s = two53))))"

subsection \<open>The same class with object identity\<close>

text \<open>
  \<open>findAll\<close> hands out a fresh array whose elements are references to the very \<open>User\<close>
  objects the map holds. Whether a later call can change what such an array shows
  depends on which objects the methods write to, so this second model keeps the objects
  in a heap: a reference is the index of an object in allocation order, an array is a
  list of references, and the map stores references. In every world reached from
  \<open>new_World\<close> the references held by the map and by the arrays are allocated
  (lemma \<open>wf_r_run\<close>), so \<open>objs w ! r\<close> is only read in range.
\<close>

type_synonym ref = nat

record World =
  objs :: "User list"
  arrs :: "ref list list"
  users_r :: "(string, ref) jsmap"
  nextId_r :: nat

definition new_World :: World where
  "new_World = \<lparr>objs = [], arrs = [], users_r = [], nextId_r = 1\<rparr>"

definition r_create :: "World \<Rightarrow> CreateUserDto \<Rightarrow> jsdate \<Rightarrow> ref \<times> World" where
  "r_create w data now =
     (let i = String_num (nextId_r w);
          user = new_User i (c_name data) (c_email data) now;
          r = length (objs w);
          w1 = w\<lparr>objs := objs w @ [user], nextId_r := incr (nextId_r w)\<rparr>
      in (r, w1\<lparr>users_r := Map_set (users_r w1) i r\<rparr>))"

definition r_findById :: "World \<Rightarrow> string \<Rightarrow> ref option" where
  "r_findById w i = Map_get (users_r w) i"

fun r_findByEmail_loop :: "User list \<Rightarrow> ref list \<Rightarrow> string \<Rightarrow> ref option" where
  "r_findByEmail_loop h [] email = None"
| "r_findByEmail_loop h (r # rest) email =
     (if u_email (h ! r) = Str email then Some r else r_findByEmail_loop h rest email)"

definition r_findByEmail :: "World \<Rightarrow> string \<Rightarrow> ref option" where
  "r_findByEmail w email = r_findByEmail_loop (objs w) (Map_values (users_r w)) email"

definition r_findAll :: "World \<Rightarrow> ref \<times> World" where
  "r_findAll w = (length (arrs w), w\<lparr>arrs := arrs w @ [Map_values (users_r w)]\<rparr>)"

definition r_update :: "World \<Rightarrow> string \<Rightarrow> UpdateUserDto \<Rightarrow> (error + ref) \<times> World" where
  "r_update w i data =
     (case Map_get (users_r w) i of
        None \<Rightarrow> (Inl (NotFoundError i), w)
      | Some r \<Rightarrow>
          (let updated = spread (objs w ! r) data;
               r' = length (objs w);
               w1 = w\<lparr>objs := objs w @ [updated]\<rparr>
           in (Inr r', w1\<lparr>users_r := Map_set (users_r w1) i r'\<rparr>)))"

definition r_delete :: "World \<Rightarrow> string \<Rightarrow> (error + unit) \<times> World" where
  "r_delete w i =
     (if \<not> Map_has (users_r w) i then (Inl (NotFoundError i), w)
      else (Inr (), w\<lparr>users_r := Map_delete (users_r w) i\<rparr>))"

fun r_step :: "World \<Rightarrow> op \<Rightarrow> World" where
  "r_step w (Create data now) = snd (r_create w data now)"
| "r_step w (FindById i) = w"
| "r_step w (FindByEmail email) = w"
| "r_step w FindAll = snd (r_findAll w)"
| "r_step w (Update i data) = snd (r_update w i data)"
| "r_step w (Delete i) = snd (r_delete w i)"

definition r_run :: "World \<Rightarrow> op list \<Rightarrow> World" where
  "r_run w ops = foldl r_step w ops"

text \<open>What a caller sees when reading through the array at \<open>a\<close>.\<close>

definition read_array :: "World \<Rightarrow> ref \<Rightarrow> User list" where
  "read_array w a = map (\<lambda>r. objs w ! r) (arrs w ! a)"

text \<open>The repository state of the first model that a world stands for.\<close>

definition repo_of :: "World \<Rightarrow> Repo" where
  "repo_of w = \<lparr>users = map (\<lambda>(k, r). (k, objs w ! r)) (users_r w), nextId = nextId_r w\<rparr>"

definition wf :: "World \<Rightarrow> bool" where
  "wf w = ((\<forall>r \<in> set (Map_values (users_r w)). r < length (objs w)) \<and>
           (\<forall>arr \<in> set (arrs w). \<forall>r \<in> set arr. r < length (objs w)))"

section \<open>The mapper example\<close>

record UserEntity =
  e_id :: string
  e_name :: string
  e_email :: string
  e_createdAt :: jsdate

definition getDisplayName :: "UserEntity \<Rightarrow> string" where
  "getDisplayName e = e_name e @ '' <'' @ e_email e @ ''>''"

record UserResponseDto =
  r_id :: string
  r_name :: string
  r_email :: string
  r_memberSince :: string

record UserPayload =
  userId :: string
  payload_email :: string

record UserRow =
  user_id :: string
  user_name :: string
  user_email :: string
  created_at :: string

text \<open>The error kind that the specification gives the converter.\<close>

datatype mapper_error = MalformedInputError

text \<open>
  \<open>new Date(string)\<close>: the runtime's parser gives a time value, or \<open>NaN\<close> (here \<open>None\<close>)
  for a string it cannot read; the constructor does not throw.
\<close>

definition new_Date :: "(string \<Rightarrow> int option) \<Rightarrow> string \<Rightarrow> jsdate" where
  "new_Date parse str = (case parse str of None \<Rightarrow> InvalidDate | Some t \<Rightarrow> Date t)"

definition toEntity :: "(string \<Rightarrow> int option) \<Rightarrow> UserRow \<Rightarrow> UserEntity" where
  "toEntity parse row =
     \<lparr>e_id = user_id row, e_name = user_name row, e_email = user_email row,
      e_createdAt = new_Date parse (created_at row)\<rparr>"

text \<open>
  \<open>toEntity\<close> has no \<open>throw\<close> and calls nothing that throws on strings: as an outcome that
  is either an error or a value, every call is a value.
\<close>

definition toEntity_result :: "(string \<Rightarrow> int option) \<Rightarrow> UserRow \<Rightarrow> mapper_error + UserEntity" where
  "toEntity_result parse row = Inr (toEntity parse row)"

definition toDto :: "(jsdate \<Rightarrow> string) \<Rightarrow> UserEntity \<Rightarrow> UserResponseDto" where
  "toDto toLocaleDateString entity =
     \<lparr>r_id = e_id entity, r_name = e_name entity, r_email = e_email entity,
      r_memberSince = toLocaleDateString (e_createdAt entity)\<rparr>"

definition userEntityToPayload :: "UserEntity \<Rightarrow> UserPayload" where
  "userEntityToPayload entity = \<lparr>userId = e_id entity, payload_email = e_email entity\<rparr>"

text \<open>
  The specification's \<open>recordToDomain\<close>, written from its words (section 4.1): it fails
  with \<open>MalformedInputError\<close> if the timestamp string is unparseable, and otherwise maps
  each field by name and parses the timestamp. A \<open>UserRow\<close> has all four fields, so the
  case of an absent field does not arise for it.
\<close>

definition recordToDomain_spec :: "(string \<Rightarrow> int option) \<Rightarrow> UserRow \<Rightarrow> mapper_error + UserEntity" where
  "recordToDomain_spec parse row =
     (case parse (created_at row) of
        None \<Rightarrow> Inl MalformedInputError
      | Some t \<Rightarrow>
          Inr \<lparr>e_id = user_id row, e_name = user_name row, e_email = user_email row,
               e_createdAt = Date t\<rparr>)"

section \<open>Sample data\<close>

definition alice :: CreateUserDto where
  "alice = \<lparr>c_name = ''Alice'', c_email = ''alice@example.com''\<rparr>"

definition bob :: CreateUserDto where
  "bob = \<lparr>c_name = ''Bob'', c_email = ''bob@example.com''\<rparr>"

text \<open>The repository of \<open>main\<close> after its two registrations.\<close>

definition main_Repo :: Repo where
  "main_Repo = run new_Repo [Create alice (Date 1000), Create bob (Date 2000)]"

definition main_World :: World where
  "main_World = r_run new_World [Create alice (Date 1000), Create bob (Date 2000)]"

text \<open>
  A patch that the type checker accepts for \<open>UpdateUserDto\<close> when it is passed through a
  variable, as in \<open>const d = { name: "X", id: "9" }; repository.update("1", d)\<close>.
\<close>

definition id_patch :: UpdateUserDto where
  "id_patch = [''name'' \<mapsto> Str ''X'', ''id'' \<mapsto> Str ''9'']"

text \<open>The patch of \<open>updateUserName(id, "Alice Smith")\<close> in \<open>main\<close>.\<close>

definition name_patch :: UpdateUserDto where
  "name_patch = [''name'' \<mapsto> Str ''Alice Smith'']"

text \<open>The patch \<open>{ name: undefined }\<close>, which the type checker accepts as well.\<close>

definition undefined_patch :: UpdateUserDto where
  "undefined_patch = [''name'' \<mapsto> Undefined]"

definition email_patch :: UpdateUserDto where
  "email_patch = [''email'' \<mapsto> Str ''bob@work.example'']"

text \<open>The row of the mapper's \<open>main\<close>, and a row whose timestamp is not a date.\<close>

definition dbRow :: UserRow where
  "dbRow = \<lparr>user_id = ''usr_42'', user_name = ''Alice Johnson'',
            user_email = ''alice@example.com'', created_at = ''2024-06-15T10:30:00Z''\<rparr>"

definition badRow :: UserRow where
  "badRow = \<lparr>user_id = ''usr_44'', user_name = ''Carol'',
             user_email = ''carol@example.com'', created_at = ''not a date''\<rparr>"

text \<open>The parser's answers on the two timestamp strings above.\<close>

definition sample_parse :: "string \<Rightarrow> int option" where
  "sample_parse str = (if str = ''2024-06-15T10:30:00Z'' then Some 1718447400000 else None)"

section \<open>Properties\<close>

lemma Map_get_set: "Map_get (Map_set m k v) k' = (if k' = k then Some v else Map_get m k')"
  by (induction m) auto

lemma Map_get_delete: "Map_get (Map_delete m k) k' = (if k' = k then None else Map_get m k')"
  by (induction m) (auto simp: Map_delete_def)

lemma Map_get_None_iff: "(Map_get m k = None) = (k \<notin> set (map fst m))"
  by (induction m) (force split: if_splits)+

lemma Map_get_Some_mem: "Map_get m k = Some v \<Longrightarrow> (k, v) \<in> set m"
  by (induction m) (auto split: if_splits)

lemma Map_set_fresh: "Map_get m k = None \<Longrightarrow> Map_set m k v = m @ [(k, v)]"
  by (induction m) (auto split: if_splits)

lemma Map_set_present:
  "Map_get m k = Some u \<Longrightarrow>
   \<exists>pre post. m = pre @ (k, u) # post \<and> k \<notin> set (map fst pre) \<and> Map_set m k v = pre @ (k, v) # post"
proof (induction m)
  case Nil
  then show ?case by simp
next
  case (Cons p m)
  obtain k' v' where p: "p = (k', v')" by (cases p)
  show ?case
  proof (cases "k' = k")
    case True
    with Cons.prems p have "p # m = [] @ (k, u) # m \<and> k \<notin> set (map fst []) \<and> Map_set (p # m) k v = [] @ (k, v) # m"
      by simp
    then show ?thesis by blast
  next
    case False
    with Cons.prems p have "Map_get m k = Some u" by simp
    from Cons.IH [OF this] obtain pre post where
      h: "m = pre @ (k, u) # post" "k \<notin> set (map fst pre)" "Map_set m k v = pre @ (k, v) # post"
      by blast
    with False p have "p # m = (p # pre) @ (k, u) # post \<and> k \<notin> set (map fst (p # pre)) \<and>
        Map_set (p # m) k v = (p # pre) @ (k, v) # post"
      by auto
    then show ?thesis by blast
  qed
qed

lemma keys_Map_set:
  "map fst (Map_set m k v) = (if k \<in> set (map fst m) then map fst m else map fst m @ [k])"
  by (induction m) (force split: if_splits)+

lemma keys_Map_delete: "map fst (Map_delete m k) = filter (\<lambda>k'. k' \<noteq> k) (map fst m)"
  by (induction m) (auto simp: Map_delete_def)

lemma digit_value_digit_char: "d < 10 \<Longrightarrow> digit_value (digit_char d) = d"
proof -
  assume "d < 10"
  then have "d \<in> {0, 1, 2, 3, 4, 5, 6, 7, 8, 9}" by auto
  then show ?thesis
    by (auto simp: digit_value_def digit_char_def)
qed

lemma decimal_value_snoc: "decimal_value (cs @ [c]) = 10 * decimal_value cs + digit_value c"
  by (simp add: decimal_value_def)

lemma decimal_value_String_num: "decimal_value (String_num n) = n"
proof (induction n rule: String_num.induct)
  case (1 n)
  show ?case
  proof (cases "n < 10")
    case True
    then show ?thesis
      by (subst String_num.simps) (simp add: decimal_value_def digit_value_digit_char)
  next
    case False
    with "1" have "decimal_value (String_num (n div 10)) = n div 10" by simp
    with False show ?thesis
      by (subst String_num.simps) (simp add: decimal_value_snoc digit_value_digit_char)
  qed
qed

lemma String_num_inj: "(String_num a = String_num b) = (a = b)"
  by (metis decimal_value_String_num)

lemma nextId_create: "nextId (snd (create s data now)) = incr (nextId s)"
  by (simp add: create_def Let_def)

lemma nextId_update: "nextId (snd (update s i data)) = nextId s"
  by (simp add: update_def Let_def split: option.splits)

lemma nextId_delete: "nextId (snd (delete s i)) = nextId s"
  by (simp add: delete_def)

lemma nextId_step: "nextId (step s c) = (if is_Create c then incr (nextId s) else nextId s)"
  by (cases c) (simp_all add: nextId_create nextId_update nextId_delete)

lemma u_id_new_User: "u_id (new_User i n e c) = Str i"
  by (simp add: u_id_def get_prop_def new_User_def)

lemma u_email_new_User: "u_email (new_User i n e c) = Str e"
  by (simp add: u_email_def get_prop_def new_User_def)

lemma u_id_create: "u_id (fst (create s data now)) = Str (String_num (nextId s))"
  by (simp add: create_def Let_def u_id_new_User)

lemma incr_min: "n \<le> two53 \<Longrightarrow> incr n = min (n + 1) two53"
  by (simp add: incr_def)

lemma min_step: "min (min (Suc a) T + j) T = min (Suc (a + j)) (T::nat)"
  by (auto simp: min_def)

lemma created_ids_from:
  "nextId s \<le> two53 \<Longrightarrow>
   created_ids s ops = map (\<lambda>j. Str (String_num (min (nextId s + j) two53))) [0..<creates ops]"
proof (induction ops arbitrary: s)
  case Nil
  then show ?case by (simp add: creates_def)
next
  case (Cons c ops)
  show ?case
  proof (cases "is_Create c")
    case True
    then obtain data now where c: "c = Create data now" by (cases c) simp_all
    have n: "nextId (step s c) = min (nextId s + 1) two53"
      using Cons.prems True by (simp add: nextId_step incr_min)
    then have "nextId (step s c) \<le> two53" by simp
    from Cons.IH [OF this] n
    have ih: "created_ids (step s c) ops =
        map (\<lambda>j. Str (String_num (min (min (nextId s + 1) two53 + j) two53))) [0..<creates ops]"
      by simp
    have "created_ids s (c # ops) = Str (String_num (nextId s)) # created_ids (step s c) ops"
      using c by (simp add: u_id_create)
    also have "\<dots> = Str (String_num (min (nextId s + 0) two53)) #
        map (\<lambda>j. Str (String_num (min (nextId s + Suc j) two53))) [0..<creates ops]"
      using Cons.prems by (simp add: ih min_step min_absorb1)
    also have "\<dots> = map (\<lambda>j. Str (String_num (min (nextId s + j) two53))) [0..<Suc (creates ops)]"
      by (simp only: map_upt_Suc)
    finally show ?thesis using True by (simp add: creates_def)
  next
    case False
    then have "nextId (step s c) = nextId s" by (simp add: nextId_step)
    with Cons.IH [of "step s c"] Cons.prems
    have "created_ids (step s c) ops =
        map (\<lambda>j. Str (String_num (min (nextId s + j) two53))) [0..<creates ops]"
      by simp
    moreover have "created_ids s (c # ops) = created_ids (step s c) ops"
      using False by (cases c) simp_all
    ultimately show ?thesis using False by (simp add: creates_def)
  qed
qed

lemma nextId_run: "nextId s \<le> two53 \<Longrightarrow> nextId (run s ops) = min (nextId s + creates ops) two53"
proof (induction ops arbitrary: s)
  case Nil
  then show ?case by (simp add: run_def creates_def)
next
  case (Cons c ops)
  have n: "nextId (step s c) = (if is_Create c then min (nextId s + 1) two53 else nextId s)"
    using Cons.prems by (simp add: nextId_step incr_min)
  then have "nextId (step s c) \<le> two53" using Cons.prems by simp
  from Cons.IH [OF this] have "nextId (run (step s c) ops) = min (nextId (step s c) + creates ops) two53" .
  then show ?case using n by (simp add: run_def creates_def min_step)
qed

text \<open>
  Claim C1, as amended. On a repository that starts as \<open>new_Repo\<close>, in every sequence of
  calls (creates, finds, updates and deletes in any order) that makes at most \<open>2^53\<close>
  \<open>create\<close> calls, the \<open>k\<close>-th \<open>create\<close> returns the identifier \<open>String(k)\<close>: the returned
  identifiers are pairwise distinct, strictly increasing as numbers in call order, and
  none is handed out twice, whatever was deleted or updated in between.
\<close>

theorem created_ids_increasing:
  "creates ops \<le> two53 \<Longrightarrow>
   created_ids new_Repo ops = map Str (map String_num [1..<Suc (creates ops)]) \<and>
   distinct (created_ids new_Repo ops) \<and>
   sorted_wrt (<) (map decimal_value (map String_num [1..<Suc (creates ops)]))"
proof -
  assume b: "creates ops \<le> two53"
  have "nextId new_Repo \<le> two53" by (simp add: new_Repo_def two53_def)
  from created_ids_from [OF this, of ops]
  have "created_ids new_Repo ops = map (\<lambda>j. Str (String_num (min (Suc j) two53))) [0..<creates ops]"
    by (simp add: new_Repo_def)
  also have "\<dots> = map (\<lambda>j. Str (String_num (Suc j))) [0..<creates ops]"
    using b by (intro map_cong) auto
  also have "\<dots> = map Str (map String_num (map Suc [0..<creates ops]))"
    by simp
  also have "\<dots> = map Str (map String_num [1..<Suc (creates ops)])"
    by (simp only: map_Suc_upt One_nat_def)
  finally have e: "created_ids new_Repo ops = map Str (map String_num [1..<Suc (creates ops)])" .
  have "distinct (map Str (map String_num [1..<Suc (creates ops)]))"
    by (simp add: distinct_map inj_on_def String_num_inj)
  moreover have "map decimal_value (map String_num [1..<Suc (creates ops)]) = [1..<Suc (creates ops)]"
    by (simp add: decimal_value_String_num comp_def)
  ultimately show ?thesis using e by (simp del: upt_Suc)
qed

theorem created_ids_increasing_witness:
  "creates [Create alice (Date 1000), Delete ''1'', Create bob (Date 2000)] \<le> two53 \<and>
   created_ids new_Repo [Create alice (Date 1000), Delete ''1'', Create bob (Date 2000)] =
     [Str ''1'', Str ''2'']"
  using created_ids_increasing [of "[Create alice (Date 1000), Delete ''1'', Create bob (Date 2000)]"]
  by (simp add: creates_def two53_def String_num.simps digit_char_def upt_rec)

text \<open>
  Claim C1 as stated, for every sequence of calls, fails: the counter stays at \<open>2^53\<close>, so
  the \<open>create\<close> calls number \<open>2^53\<close> and \<open>2^53 + 1\<close> both return \<open>String(2^53)\<close>.
\<close>

theorem created_ids_reused:
  "\<not> distinct (created_ids new_Repo (replicate (Suc two53) (Create alice (Date 1000))))"
proof
  let ?ops = "replicate (Suc two53) (Create alice (Date 1000))"
  let ?f = "\<lambda>j. Str (String_num (min (Suc j) two53))"
  assume d: "distinct (created_ids new_Repo ?ops)"
  have c: "creates ?ops = Suc two53" by (simp add: creates_def)
  have "nextId new_Repo \<le> two53" by (simp add: new_Repo_def two53_def)
  from created_ids_from [OF this, of ?ops] c
  have "created_ids new_Repo ?ops = map ?f [0..<Suc two53]"
    by (simp add: new_Repo_def del: upt_Suc replicate_Suc)
  with d have "distinct (map ?f [0..<Suc two53])" by (simp del: upt_Suc replicate_Suc)
  then have "inj_on ?f (set [0..<Suc two53])" by (simp only: distinct_map)
  moreover have "?f (two53 - 1) = ?f two53" by (simp add: two53_def)
  moreover have "two53 - 1 \<in> set [0..<Suc two53]" "two53 \<in> set [0..<Suc two53]" by auto
  ultimately have "two53 - 1 = two53" by (rule inj_onD)
  then show False by (simp add: two53_def)
qed

lemma main_Repo_eq:
  "main_Repo =
     \<lparr>users = [(''1'', new_User ''1'' ''Alice'' ''alice@example.com'' (Date 1000)),
               (''2'', new_User ''2'' ''Bob'' ''bob@example.com'' (Date 2000))],
      nextId = 3\<rparr>"
  by (simp add: main_Repo_def run_def create_def new_Repo_def alice_def bob_def Let_def
      String_num.simps digit_char_def incr_def two53_def)

lemma spread_prop: "spread u data p = (case data p of None \<Rightarrow> u p | Some v \<Rightarrow> Some v)"
  by (simp add: spread_def map_add_def)

lemma get_prop_spread:
  "get_prop (spread u data) p = (case data p of None \<Rightarrow> get_prop u p | Some v \<Rightarrow> v)"
  by (simp add: get_prop_def spread_prop split: option.splits)

lemma spread_name: "spread (new_User i n e c) [''name'' \<mapsto> Str n'] = new_User i n' e c"
  by (rule ext) (simp add: spread_prop new_User_def)

lemma spread_email: "spread (new_User i n e c) [''email'' \<mapsto> Str e'] = new_User i n e' c"
  by (rule ext) (simp add: spread_prop new_User_def)

lemma spread_id_patch: "spread (new_User i n e c) id_patch = new_User ''9'' ''X'' e c"
  by (rule ext) (simp add: spread_prop new_User_def id_patch_def)

lemma update_present:
  "findById s i = Some u \<Longrightarrow>
   update s i data = (Inr (spread u data), s\<lparr>users := Map_set (users s) i (spread u data)\<rparr>)"
  by (simp add: update_def findById_def Let_def)

lemma update_absent: "findById s i = None \<Longrightarrow> update s i data = (Inl (NotFoundError i), s)"
  by (simp add: update_def findById_def)

lemma keys_update:
  "findById s i = Some u \<Longrightarrow> map fst (users (snd (update s i data))) = map fst (users s)"
proof -
  assume p: "findById s i = Some u"
  then have "i \<in> set (map fst (users s))"
    using Map_get_None_iff [of "users s" i] by (simp add: findById_def)
  then show ?thesis by (simp add: update_present [OF p] keys_Map_set)
qed

text \<open>
  Claim C2 as stated fails: the spread copies every own property of the patch, and the
  type checker accepts for \<open>UpdateUserDto\<close> a patch that also carries \<open>id\<close>. With such a patch
  \<open>update\<close> on the user stored under \<open>1\<close> returns, and stores under \<open>1\<close>, a user whose
  identifier is \<open>9\<close>.
\<close>

theorem update_overwrites_id:
  "accepted_UpdateUserDto id_patch \<and>
   findById main_Repo ''1'' = Some (new_User ''1'' ''Alice'' ''alice@example.com'' (Date 1000)) \<and>
   fst (update main_Repo ''1'' id_patch) =
     Inr (new_User ''9'' ''X'' ''alice@example.com'' (Date 1000)) \<and>
   findById (snd (update main_Repo ''1'' id_patch)) ''1'' =
     Some (new_User ''9'' ''X'' ''alice@example.com'' (Date 1000)) \<and>
   u_id (new_User ''9'' ''X'' ''alice@example.com'' (Date 1000)) \<noteq>
     u_id (new_User ''1'' ''Alice'' ''alice@example.com'' (Date 1000))"
proof -
  have a: "accepted_UpdateUserDto id_patch"
    by (simp add: accepted_UpdateUserDto_def string_or_undefined_def id_patch_def)
  have h: "findById main_Repo ''1'' = Some (new_User ''1'' ''Alice'' ''alice@example.com'' (Date 1000))"
    by (simp add: main_Repo_eq findById_def)
  have r: "fst (update main_Repo ''1'' id_patch) =
     Inr (new_User ''9'' ''X'' ''alice@example.com'' (Date 1000))"
    by (simp add: update_present [OF h] spread_id_patch)
  have f: "findById (snd (update main_Repo ''1'' id_patch)) ''1'' =
     Some (new_User ''9'' ''X'' ''alice@example.com'' (Date 1000))"
    by (simp add: update_present [OF h] spread_id_patch findById_def Map_get_set)
  have n: "u_id (new_User ''9'' ''X'' ''alice@example.com'' (Date 1000)) \<noteq>
     u_id (new_User ''1'' ''Alice'' ''alice@example.com'' (Date 1000))"
    by (simp add: u_id_new_User)
  from a h r f n show ?thesis by blast
qed

text \<open>
  Claim C2, as amended. When \<open>i\<close> is present with value \<open>u\<close>, \<open>update\<close> returns, for every
  patch, the object that has the patch's value at each property the patch carries (also
  where that value is \<open>undefined\<close>) and \<open>u\<close>'s own at every other property. So the name and
  the email are the patch's where it has them; the identifier is \<open>u\<close>'s unless the patch
  carries \<open>id\<close>, and the creation timestamp is \<open>u\<close>'s unless the patch carries \<open>createdAt\<close>:
  both are \<open>u\<close>'s for every patch made of the two declared properties. The returned
  object is what the map then holds at \<open>i\<close>; the other entries, the order of the keys and
  the counter are as before.
\<close>

theorem update_merges:
  "findById s i = Some u \<Longrightarrow>
   (\<exists>u'. fst (update s i data) = Inr u' \<and>
      (\<forall>p. u' p = (case data p of None \<Rightarrow> u p | Some v \<Rightarrow> Some v)) \<and>
      u_name u' = (case data ''name'' of None \<Rightarrow> u_name u | Some v \<Rightarrow> v) \<and>
      u_email u' = (case data ''email'' of None \<Rightarrow> u_email u | Some v \<Rightarrow> v) \<and>
      (''id'' \<notin> dom data \<longrightarrow> u_id u' = u_id u) \<and>
      (''createdAt'' \<notin> dom data \<longrightarrow> u_createdAt u' = u_createdAt u) \<and>
      (dom data \<subseteq> {''name'', ''email''} \<longrightarrow> u_id u' = u_id u \<and> u_createdAt u' = u_createdAt u) \<and>
      findById (snd (update s i data)) i = Some u' \<and>
      (\<forall>j. j \<noteq> i \<longrightarrow> findById (snd (update s i data)) j = findById s j) \<and>
      map fst (users (snd (update s i data))) = map fst (users s) \<and>
      nextId (snd (update s i data)) = nextId s)"
proof -
  assume p: "findById s i = Some u"
  let ?u' = "spread u data"
  have r: "fst (update s i data) = Inr ?u'"
    by (simp add: update_present [OF p])
  have props: "\<forall>p. ?u' p = (case data p of None \<Rightarrow> u p | Some v \<Rightarrow> Some v)"
    by (simp add: spread_prop)
  have nm: "u_name ?u' = (case data ''name'' of None \<Rightarrow> u_name u | Some v \<Rightarrow> v)"
    by (simp add: u_name_def get_prop_spread split: option.splits)
  have em: "u_email ?u' = (case data ''email'' of None \<Rightarrow> u_email u | Some v \<Rightarrow> v)"
    by (simp add: u_email_def get_prop_spread split: option.splits)
  have idk: "''id'' \<notin> dom data \<longrightarrow> u_id ?u' = u_id u"
    by (auto simp: u_id_def get_prop_spread dom_def)
  have ck: "''createdAt'' \<notin> dom data \<longrightarrow> u_createdAt ?u' = u_createdAt u"
    by (auto simp: u_createdAt_def get_prop_spread dom_def)
  have decl: "dom data \<subseteq> {''name'', ''email''} \<longrightarrow> u_id ?u' = u_id u \<and> u_createdAt ?u' = u_createdAt u"
  proof
    assume d: "dom data \<subseteq> {''name'', ''email''}"
    have "''id'' \<notin> {''name'', ''email''}" "''createdAt'' \<notin> {''name'', ''email''}" by simp_all
    with d have "''id'' \<notin> dom data" "''createdAt'' \<notin> dom data" by blast+
    with idk ck show "u_id ?u' = u_id u \<and> u_createdAt ?u' = u_createdAt u" by blast
  qed
  have st: "findById (snd (update s i data)) i = Some ?u'"
    by (simp add: update_present [OF p] findById_def Map_get_set)
  have oth: "\<forall>j. j \<noteq> i \<longrightarrow> findById (snd (update s i data)) j = findById s j"
    by (simp add: update_present [OF p] findById_def Map_get_set)
  have ks: "map fst (users (snd (update s i data))) = map fst (users s)"
    using p by (rule keys_update)
  have nx: "nextId (snd (update s i data)) = nextId s"
    by (rule nextId_update)
  from r props nm em idk ck decl st oth ks nx show ?thesis by blast
qed

theorem update_merges_witness:
  "findById main_Repo ''1'' = Some (new_User ''1'' ''Alice'' ''alice@example.com'' (Date 1000)) \<and>
   ''id'' \<notin> dom name_patch \<and> ''createdAt'' \<notin> dom name_patch \<and>
   dom name_patch \<subseteq> {''name'', ''email''} \<and>
   (\<exists>u'. fst (update main_Repo ''1'' name_patch) = Inr u' \<and>
      u_name u' = Str ''Alice Smith'' \<and> u_email u' = Str ''alice@example.com'' \<and>
      u_id u' = Str ''1'' \<and> u_createdAt u' = DateObj (Date 1000) \<and>
      findById (snd (update main_Repo ''1'' name_patch)) ''1'' = Some u') \<and>
   accepted_UpdateUserDto undefined_patch \<and>
   (\<exists>u'. fst (update main_Repo ''1'' undefined_patch) = Inr u' \<and>
      u_name u' = Undefined \<and> u_email u' = Str ''alice@example.com'' \<and> u_id u' = Str ''1'')"
proof -
  let ?u = "new_User ''1'' ''Alice'' ''alice@example.com'' (Date 1000)"
  have h: "findById main_Repo ''1'' = Some ?u"
    by (simp add: main_Repo_eq findById_def)
  have d: "dom name_patch \<subseteq> {''name'', ''email''}" "''id'' \<notin> dom name_patch"
    "''createdAt'' \<notin> dom name_patch"
    by (simp_all add: name_patch_def)
  have v: "name_patch ''name'' = Some (Str ''Alice Smith'')" "name_patch ''email'' = None"
    by (simp_all add: name_patch_def)
  have g: "u_email ?u = Str ''alice@example.com''" "u_id ?u = Str ''1''"
    "u_createdAt ?u = DateObj (Date 1000)"
    by (simp_all add: u_email_def u_id_def u_createdAt_def get_prop_def new_User_def)
  from update_merges [OF h, of name_patch] obtain u1 where
    u1: "fst (update main_Repo ''1'' name_patch) = Inr u1"
      "u_name u1 = (case name_patch ''name'' of None \<Rightarrow> u_name ?u | Some v \<Rightarrow> v)"
      "u_email u1 = (case name_patch ''email'' of None \<Rightarrow> u_email ?u | Some v \<Rightarrow> v)"
      "dom name_patch \<subseteq> {''name'', ''email''} \<longrightarrow> u_id u1 = u_id ?u \<and> u_createdAt u1 = u_createdAt ?u"
      "findById (snd (update main_Repo ''1'' name_patch)) ''1'' = Some u1"
    by blast
  from u1 d v g have first:
    "\<exists>u'. fst (update main_Repo ''1'' name_patch) = Inr u' \<and>
      u_name u' = Str ''Alice Smith'' \<and> u_email u' = Str ''alice@example.com'' \<and>
      u_id u' = Str ''1'' \<and> u_createdAt u' = DateObj (Date 1000) \<and>
      findById (snd (update main_Repo ''1'' name_patch)) ''1'' = Some u'"
    by simp
  have a: "accepted_UpdateUserDto undefined_patch"
    by (simp add: accepted_UpdateUserDto_def string_or_undefined_def undefined_patch_def)
  have w: "undefined_patch ''name'' = Some Undefined" "undefined_patch ''email'' = None"
    "''id'' \<notin> dom undefined_patch"
    by (simp_all add: undefined_patch_def)
  from update_merges [OF h, of undefined_patch] obtain u2 where
    u2: "fst (update main_Repo ''1'' undefined_patch) = Inr u2"
      "u_name u2 = (case undefined_patch ''name'' of None \<Rightarrow> u_name ?u | Some v \<Rightarrow> v)"
      "u_email u2 = (case undefined_patch ''email'' of None \<Rightarrow> u_email ?u | Some v \<Rightarrow> v)"
      "''id'' \<notin> dom undefined_patch \<longrightarrow> u_id u2 = u_id ?u"
    by blast
  from u2 w g have second:
    "\<exists>u'. fst (update main_Repo ''1'' undefined_patch) = Inr u' \<and>
      u_name u' = Undefined \<and> u_email u' = Str ''alice@example.com'' \<and> u_id u' = Str ''1''"
    by simp
  from h d first a second show ?thesis by blast
qed

text \<open>
  Claim C4. \<open>update\<close> throws exactly when \<open>i\<close> is absent; what it throws then is the not-found
  error for \<open>i\<close>, and the state is the one before the call.
\<close>

theorem update_NotFound:
  "(isl (fst (update s i data)) = (findById s i = None)) \<and>
   (findById s i = None \<longrightarrow> update s i data = (Inl (NotFoundError i), s))"
  by (cases "findById s i") (simp_all add: update_present update_absent)

theorem update_NotFound_witness:
  "findById main_Repo ''999'' = None \<and>
   update main_Repo ''999'' [''name'' \<mapsto> Str ''X''] = (Inl (NotFoundError ''999''), main_Repo) \<and>
   findById main_Repo ''1'' \<noteq> None \<and>
   \<not> isl (fst (update main_Repo ''1'' [''name'' \<mapsto> Str ''X'']))"
  using update_NotFound [of main_Repo "''999''" "[''name'' \<mapsto> Str ''X'']"]
    update_NotFound [of main_Repo "''1''" "[''name'' \<mapsto> Str ''X'']"]
  by (simp add: main_Repo_eq findById_def)

text \<open>
  Claim C10. An \<open>update\<close> of a present identifier succeeds, and whenever \<open>update\<close> returns a
  user, \<open>findById\<close> on the resulting state returns that same user.
\<close>

theorem update_then_findById:
  "(findById s i \<noteq> None \<longrightarrow> (\<exists>u'. fst (update s i data) = Inr u')) \<and>
   (\<forall>u'. fst (update s i data) = Inr u' \<longrightarrow> findById (snd (update s i data)) i = Some u')"
proof (cases "findById s i")
  case None
  then show ?thesis by (simp add: update_absent)
next
  case (Some u)
  then show ?thesis by (simp add: update_present findById_def Map_get_set)
qed

theorem update_then_findById_witness:
  "fst (update main_Repo ''2'' email_patch) =
     Inr (new_User ''2'' ''Bob'' ''bob@work.example'' (Date 2000)) \<and>
   findById (snd (update main_Repo ''2'' email_patch)) ''2'' =
     Some (new_User ''2'' ''Bob'' ''bob@work.example'' (Date 2000))"
proof -
  have h: "findById main_Repo ''2'' = Some (new_User ''2'' ''Bob'' ''bob@example.com'' (Date 2000))"
    by (simp add: main_Repo_eq findById_def)
  have "fst (update main_Repo ''2'' email_patch) =
     Inr (new_User ''2'' ''Bob'' ''bob@work.example'' (Date 2000))"
    by (simp add: update_present [OF h] email_patch_def spread_email)
  with update_then_findById [of main_Repo "''2''" email_patch]
  show ?thesis by simp
qed

lemma delete_absent: "findById s i = None \<Longrightarrow> delete s i = (Inl (NotFoundError i), s)"
  by (simp add: delete_def findById_def Map_has_def)

lemma delete_present:
  "findById s i \<noteq> None \<Longrightarrow> delete s i = (Inr (), s\<lparr>users := Map_delete (users s) i\<rparr>)"
  by (simp add: delete_def findById_def Map_has_def)

text \<open>
  Claim C5. \<open>delete\<close> throws exactly when \<open>i\<close> is absent (the not-found error for \<open>i\<close>, state
  unchanged). When \<open>i\<close> is present it returns normally, the key \<open>i\<close> is gone from the map, so
  \<open>findById\<close> then finds nothing at \<open>i\<close>, \<open>findAll\<close> keeps exactly the values stored under
  other keys, and every other key reads as before.
\<close>

theorem delete_removes:
  "(isl (fst (delete s i)) = (findById s i = None)) \<and>
   (findById s i = None \<longrightarrow> delete s i = (Inl (NotFoundError i), s)) \<and>
   (findById s i \<noteq> None \<longrightarrow>
      fst (delete s i) = Inr () \<and>
      findById (snd (delete s i)) i = None \<and>
      i \<notin> set (map fst (users (snd (delete s i)))) \<and>
      (\<forall>u \<in> set (findAll s). (u \<in> set (findAll (snd (delete s i)))) = (\<exists>j. j \<noteq> i \<and> (j, u) \<in> set (users s))) \<and>
      (\<forall>j. j \<noteq> i \<longrightarrow> findById (snd (delete s i)) j = findById s j))"
proof (cases "findById s i")
  case None
  then show ?thesis by (simp add: delete_absent)
next
  case (Some u)
  then have p: "findById s i \<noteq> None" by simp
  have g: "findById (snd (delete s i)) i = None"
    by (simp add: delete_present [OF p] findById_def Map_get_delete)
  then have "Map_get (users (snd (delete s i))) i = None"
    by (simp only: findById_def)
  then have "i \<notin> set (map fst (users (snd (delete s i))))"
    using Map_get_None_iff [of "users (snd (delete s i))" i] by blast
  moreover note g
  moreover have "\<forall>j. j \<noteq> i \<longrightarrow> findById (snd (delete s i)) j = findById s j"
    by (simp add: delete_present [OF p] findById_def Map_get_delete)
  moreover have "\<forall>u \<in> set (findAll s).
      (u \<in> set (findAll (snd (delete s i)))) = (\<exists>j. j \<noteq> i \<and> (j, u) \<in> set (users s))"
    by (force simp: delete_present [OF p] findAll_def Map_values_def Map_delete_def)
  ultimately show ?thesis using Some by (simp add: delete_present [OF p])
qed

theorem delete_removes_witness:
  "findById main_Repo ''2'' \<noteq> None \<and>
   fst (delete main_Repo ''2'') = Inr () \<and>
   findById (snd (delete main_Repo ''2'')) ''2'' = None \<and>
   findAll (snd (delete main_Repo ''2'')) =
     [new_User ''1'' ''Alice'' ''alice@example.com'' (Date 1000)] \<and>
   findById main_Repo ''7'' = None \<and>
   delete main_Repo ''7'' = (Inl (NotFoundError ''7''), main_Repo)"
proof -
  have a: "findById main_Repo ''2'' \<noteq> None" "findById main_Repo ''7'' = None"
    by (simp_all add: main_Repo_eq findById_def)
  have "findAll (snd (delete main_Repo ''2'')) =
     [new_User ''1'' ''Alice'' ''alice@example.com'' (Date 1000)]"
    by (simp add: main_Repo_eq delete_def Map_has_def findAll_def Map_values_def Map_delete_def)
  with a delete_removes [of main_Repo "''2''"] delete_removes [of main_Repo "''7''"]
  show ?thesis by simp
qed

lemma findByEmail_loop_None:
  "(findByEmail_loop xs email = None) = (\<forall>u \<in> set xs. u_email u \<noteq> Str email)"
  by (induction xs) auto

lemma findByEmail_loop_filter:
  "findByEmail_loop xs email =
     (case filter (\<lambda>u. u_email u = Str email) xs of [] \<Rightarrow> None | u # rest \<Rightarrow> Some u)"
  by (induction xs) auto

lemma findByEmail_loop_Some:
  "(findByEmail_loop xs email = Some u) =
     (\<exists>pre post. xs = pre @ u # post \<and> u_email u = Str email \<and> (\<forall>x \<in> set pre. u_email x \<noteq> Str email))"
proof (induction xs)
  case Nil
  then show ?case by simp
next
  case (Cons x xs)
  show ?case
  proof (cases "u_email x = Str email")
    case True
    have "(\<exists>pre post. x # xs = pre @ u # post \<and> u_email u = Str email \<and>
        (\<forall>y \<in> set pre. u_email y \<noteq> Str email)) = (x = u)"
    proof
      assume "\<exists>pre post. x # xs = pre @ u # post \<and> u_email u = Str email \<and>
        (\<forall>y \<in> set pre. u_email y \<noteq> Str email)"
      then obtain pre post where h: "x # xs = pre @ u # post" "\<forall>y \<in> set pre. u_email y \<noteq> Str email"
        by blast
      show "x = u"
      proof (cases pre)
        case Nil
        with h show ?thesis by simp
      next
        case (Cons p ps)
        with h True show ?thesis by auto
      qed
    next
      assume "x = u"
      with True have "x # xs = [] @ u # xs \<and> u_email u = Str email \<and> (\<forall>y \<in> set []. u_email y \<noteq> Str email)"
        by simp
      then show "\<exists>pre post. x # xs = pre @ u # post \<and> u_email u = Str email \<and>
        (\<forall>y \<in> set pre. u_email y \<noteq> Str email)" by blast
    qed
    with True show ?thesis by simp
  next
    case False
    have "(\<exists>pre post. x # xs = pre @ u # post \<and> u_email u = Str email \<and>
        (\<forall>y \<in> set pre. u_email y \<noteq> Str email)) =
      (\<exists>pre post. xs = pre @ u # post \<and> u_email u = Str email \<and>
        (\<forall>y \<in> set pre. u_email y \<noteq> Str email))"
    proof
      assume "\<exists>pre post. x # xs = pre @ u # post \<and> u_email u = Str email \<and>
        (\<forall>y \<in> set pre. u_email y \<noteq> Str email)"
      then obtain pre post where h: "x # xs = pre @ u # post" "u_email u = Str email"
        "\<forall>y \<in> set pre. u_email y \<noteq> Str email"
        by blast
      with False obtain ps where "pre = x # ps" by (cases pre) auto
      with h have "xs = ps @ u # post \<and> u_email u = Str email \<and> (\<forall>y \<in> set ps. u_email y \<noteq> Str email)"
        by simp
      then show "\<exists>pre post. xs = pre @ u # post \<and> u_email u = Str email \<and>
        (\<forall>y \<in> set pre. u_email y \<noteq> Str email)" by blast
    next
      assume "\<exists>pre post. xs = pre @ u # post \<and> u_email u = Str email \<and>
        (\<forall>y \<in> set pre. u_email y \<noteq> Str email)"
      then obtain pre post where h: "xs = pre @ u # post" "u_email u = Str email"
        "\<forall>y \<in> set pre. u_email y \<noteq> Str email"
        by blast
      with False have "x # xs = (x # pre) @ u # post \<and> u_email u = Str email \<and>
        (\<forall>y \<in> set (x # pre). u_email y \<noteq> Str email)"
        by simp
      then show "\<exists>pre post. x # xs = pre @ u # post \<and> u_email u = Str email \<and>
        (\<forall>y \<in> set pre. u_email y \<noteq> Str email)" by blast
    qed
    with False Cons.IH show ?thesis by simp
  qed
qed

text \<open>
  Claim C6. \<open>findByEmail\<close> returns the first user, in the order in which \<open>findAll\<close> lists the
  stored users (the map's insertion order), whose email is the one asked for: every user
  listed before it has another email. It returns nothing exactly when no stored user has
  that email. The result is a function of the state and the email alone.
\<close>

theorem findByEmail_first_match:
  "findByEmail s email =
     (case filter (\<lambda>u. u_email u = Str email) (findAll s) of [] \<Rightarrow> None | u # rest \<Rightarrow> Some u) \<and>
   ((findByEmail s email = None) = (\<forall>u \<in> set (findAll s). u_email u \<noteq> Str email)) \<and>
   ((findByEmail s email = Some u) =
      (\<exists>pre post. findAll s = pre @ u # post \<and> u_email u = Str email \<and>
         (\<forall>x \<in> set pre. u_email x \<noteq> Str email)))"
  unfolding findByEmail_def findAll_def
  using findByEmail_loop_filter [of "Map_values (users s)" email]
    findByEmail_loop_None [of "Map_values (users s)" email]
    findByEmail_loop_Some [of "Map_values (users s)" email u]
  by blast

lemma shared_email_Repo_eq:
  "run new_Repo [Create alice (Date 1000), Create bob (Date 2000),
                 Create \<lparr>c_name = ''Alice2'', c_email = ''alice@example.com''\<rparr> (Date 3000)] =
     \<lparr>users = [(''1'', (new_User ''1'' ''Alice'' ''alice@example.com'' (Date 1000))),
               (''2'', (new_User ''2'' ''Bob'' ''bob@example.com'' (Date 2000))),
               (''3'', (new_User ''3'' ''Alice2'' ''alice@example.com'' (Date 3000)))],
      nextId = 4\<rparr>"
  by (simp add: run_def create_def new_Repo_def alice_def bob_def Let_def
      String_num.simps digit_char_def incr_def two53_def)

theorem findByEmail_first_match_witness:
  "findByEmail (run new_Repo [Create alice (Date 1000), Create bob (Date 2000),
       Create \<lparr>c_name = ''Alice2'', c_email = ''alice@example.com''\<rparr> (Date 3000)]) ''alice@example.com'' =
     Some (new_User ''1'' ''Alice'' ''alice@example.com'' (Date 1000)) \<and>
   findByEmail (run new_Repo [Create alice (Date 1000), Create bob (Date 2000),
       Create \<lparr>c_name = ''Alice2'', c_email = ''alice@example.com''\<rparr> (Date 3000)]) ''carol@example.com'' = None"
  using findByEmail_first_match [of "run new_Repo [Create alice (Date 1000), Create bob (Date 2000),
       Create \<lparr>c_name = ''Alice2'', c_email = ''alice@example.com''\<rparr> (Date 3000)]" "''alice@example.com''"]
    findByEmail_first_match [of "run new_Repo [Create alice (Date 1000), Create bob (Date 2000),
       Create \<lparr>c_name = ''Alice2'', c_email = ''alice@example.com''\<rparr> (Date 3000)]" "''carol@example.com''"]
  by (simp add: shared_email_Repo_eq findAll_def Map_values_def u_email_new_User)

lemma Map_set_value_mem: "v \<in> set (Map_values (Map_set m k v))"
  by (induction m) (force simp: Map_values_def)+

lemma create_email_mem:
  "\<exists>u \<in> set (findAll (snd (create s \<lparr>c_name = name, c_email = email\<rparr> now))). u_email u = Str email"
proof -
  let ?u = "fst (create s \<lparr>c_name = name, c_email = email\<rparr> now)"
  have "?u \<in> set (findAll (snd (create s \<lparr>c_name = name, c_email = email\<rparr> now)))"
    by (simp add: create_def Let_def findAll_def Map_set_value_mem)
  moreover have "u_email ?u = Str email" by (simp add: create_def Let_def u_email_new_User)
  ultimately show ?thesis by blast
qed

lemma NotFound_neq_Duplicate: "NotFoundError i \<noteq> DuplicateError e"
  by (simp add: NotFoundError_def DuplicateError_def)

text \<open>
  Claim C3. \<open>registerUser\<close> throws exactly when some stored user already has the email; it
  then throws the duplicate error for that email and the state is the one before the
  call. Otherwise its result and its state are those of \<open>create\<close> on the name and the
  email, and a second \<open>registerUser\<close> with the same email, on the state the first one
  left, throws the duplicate error.
\<close>

theorem registerUser_duplicate:
  "(isl (fst (registerUser s name email now)) = (\<exists>u \<in> set (findAll s). u_email u = Str email)) \<and>
   ((\<exists>u \<in> set (findAll s). u_email u = Str email) \<longrightarrow>
      registerUser s name email now = (Inl (DuplicateError email), s)) \<and>
   (\<not> (\<exists>u \<in> set (findAll s). u_email u = Str email) \<longrightarrow>
      registerUser s name email now =
        (Inr (fst (create s \<lparr>c_name = name, c_email = email\<rparr> now)),
         snd (create s \<lparr>c_name = name, c_email = email\<rparr> now)) \<and>
      registerUser (snd (registerUser s name email now)) name2 email now2 =
        (Inl (DuplicateError email), snd (registerUser s name email now)))"
proof (cases "findByEmail s email")
  case None
  then have n: "\<not> (\<exists>u \<in> set (findAll s). u_email u = Str email)"
    by (simp add: findByEmail_def findAll_def findByEmail_loop_None)
  have r: "registerUser s name email now =
        (Inr (fst (create s \<lparr>c_name = name, c_email = email\<rparr> now)),
         snd (create s \<lparr>c_name = name, c_email = email\<rparr> now))"
    using None by (simp add: registerUser_def split_beta)
  have "findByEmail (snd (create s \<lparr>c_name = name, c_email = email\<rparr> now)) email \<noteq> None"
    using create_email_mem [of s name email now]
    by (simp add: findByEmail_def findAll_def findByEmail_loop_None)
  then have "registerUser (snd (create s \<lparr>c_name = name, c_email = email\<rparr> now)) name2 email now2 =
      (Inl (DuplicateError email), snd (create s \<lparr>c_name = name, c_email = email\<rparr> now))"
    by (auto simp: registerUser_def)
  with n r show ?thesis by simp
next
  case (Some existing)
  then have "\<exists>u \<in> set (findAll s). u_email u = Str email"
    using findByEmail_loop_None [of "Map_values (users s)" email]
    by (simp add: findByEmail_def findAll_def)
  moreover have "registerUser s name email now = (Inl (DuplicateError email), s)"
    using Some by (simp add: registerUser_def)
  ultimately show ?thesis by simp
qed

theorem registerUser_duplicate_witness:
  "\<not> (\<exists>u \<in> set (findAll new_Repo). u_email u = Str ''a@x.com'') \<and>
   fst (registerUser new_Repo ''Alice'' ''a@x.com'' (Date 1000)) =
     Inr (new_User ''1'' ''Alice'' ''a@x.com'' (Date 1000)) \<and>
   registerUser (snd (registerUser new_Repo ''Alice'' ''a@x.com'' (Date 1000))) ''Alice2'' ''a@x.com'' (Date 2000) =
     (Inl (DuplicateError ''a@x.com''), snd (registerUser new_Repo ''Alice'' ''a@x.com'' (Date 1000))) \<and>
   (\<exists>u \<in> set (findAll main_Repo). u_email u = Str ''bob@example.com'') \<and>
   registerUser main_Repo ''Robert'' ''bob@example.com'' (Date 3000) =
     (Inl (DuplicateError ''bob@example.com''), main_Repo)"
proof -
  have a: "\<not> (\<exists>u \<in> set (findAll new_Repo). u_email u = Str ''a@x.com'')"
    by (simp add: findAll_def new_Repo_def Map_values_def)
  have b: "\<exists>u \<in> set (findAll main_Repo). u_email u = Str ''bob@example.com''"
    by (simp add: findAll_def main_Repo_eq Map_values_def u_email_new_User)
  have c: "fst (create new_Repo \<lparr>c_name = ''Alice'', c_email = ''a@x.com''\<rparr> (Date 1000)) =
     (new_User ''1'' ''Alice'' ''a@x.com'' (Date 1000))"
    by (simp add: create_def new_Repo_def Let_def String_num.simps digit_char_def)
  from a registerUser_duplicate [of new_Repo "''Alice''" "''a@x.com''" "Date 1000" "''Alice2''" "Date 2000"]
  have d: "registerUser new_Repo ''Alice'' ''a@x.com'' (Date 1000) =
        (Inr (fst (create new_Repo \<lparr>c_name = ''Alice'', c_email = ''a@x.com''\<rparr> (Date 1000))),
         snd (create new_Repo \<lparr>c_name = ''Alice'', c_email = ''a@x.com''\<rparr> (Date 1000)))"
    and e: "registerUser (snd (registerUser new_Repo ''Alice'' ''a@x.com'' (Date 1000))) ''Alice2'' ''a@x.com'' (Date 2000) =
        (Inl (DuplicateError ''a@x.com''), snd (registerUser new_Repo ''Alice'' ''a@x.com'' (Date 1000)))"
    by blast+
  from b registerUser_duplicate [of main_Repo "''Robert''" "''bob@example.com''" "Date 3000"]
  have f: "registerUser main_Repo ''Robert'' ''bob@example.com'' (Date 3000) =
     (Inl (DuplicateError ''bob@example.com''), main_Repo)"
    by blast
  have "fst (registerUser new_Repo ''Alice'' ''a@x.com'' (Date 1000)) =
     Inr (new_User ''1'' ''Alice'' ''a@x.com'' (Date 1000))"
    by (simp only: d c fst_conv)
  with a b e f show ?thesis by blast
qed

text \<open>
  Claim C8. For every row, the response built from the entity built from the row has the
  row's \<open>user_id\<close> as its \<open>id\<close> and the row's \<open>user_email\<close> as its \<open>email\<close> (and the row's
  \<open>user_name\<close> as its \<open>name\<close>), whatever the date parser and the date formatter answer.
\<close>

theorem toDto_toEntity_fields:
  "r_id (toDto toLocaleDateString (toEntity parse row)) = user_id row \<and>
   r_email (toDto toLocaleDateString (toEntity parse row)) = user_email row \<and>
   r_name (toDto toLocaleDateString (toEntity parse row)) = user_name row"
  by (simp add: toDto_def toEntity_def)

text \<open>
  Claim C9 as stated fails: on a row whose timestamp the parser cannot read, the
  specification's \<open>recordToDomain\<close> fails with \<open>MalformedInputError\<close>, while \<open>toEntity\<close> returns
  an entity, whose \<open>createdAt\<close> is the invalid date.
\<close>

theorem toEntity_unparseable_returns:
  "sample_parse (created_at badRow) = None \<and>
   recordToDomain_spec sample_parse badRow = Inl MalformedInputError \<and>
   toEntity_result sample_parse badRow =
     Inr \<lparr>e_id = ''usr_44'', e_name = ''Carol'', e_email = ''carol@example.com'',
          e_createdAt = InvalidDate\<rparr> \<and>
   toEntity_result sample_parse badRow \<noteq> recordToDomain_spec sample_parse badRow"
  by (simp add: sample_parse_def badRow_def recordToDomain_spec_def toEntity_result_def
      toEntity_def new_Date_def)

text \<open>
  Claim C9, as amended. For every row (of the declared row type, so with all four
  fields), \<open>toEntity\<close> never fails. It copies the identifier, the name and the email. When
  the timestamp string is parseable the entity's timestamp is the parsed time, and the
  outcome is the one the specification's \<open>recordToDomain\<close> asks for; when it is not, the
  entity's timestamp is the invalid date.
\<close>

theorem toEntity_never_fails:
  "\<not> isl (toEntity_result parse row) \<and>
   toEntity_result parse row = Inr (toEntity parse row) \<and>
   e_id (toEntity parse row) = user_id row \<and>
   e_name (toEntity parse row) = user_name row \<and>
   e_email (toEntity parse row) = user_email row \<and>
   (\<forall>t. parse (created_at row) = Some t \<longrightarrow>
      e_createdAt (toEntity parse row) = Date t \<and>
      toEntity_result parse row = recordToDomain_spec parse row) \<and>
   (parse (created_at row) = None \<longrightarrow> e_createdAt (toEntity parse row) = InvalidDate)"
  by (simp add: toEntity_result_def toEntity_def new_Date_def recordToDomain_spec_def)

theorem toEntity_never_fails_witness:
  "sample_parse (created_at dbRow) = Some 1718447400000 \<and>
   e_createdAt (toEntity sample_parse dbRow) = Date 1718447400000 \<and>
   toEntity_result sample_parse dbRow = recordToDomain_spec sample_parse dbRow \<and>
   sample_parse (created_at badRow) = None \<and>
   e_createdAt (toEntity sample_parse badRow) = InvalidDate \<and>
   \<not> isl (toEntity_result sample_parse badRow)"
proof -
  have a: "sample_parse (created_at dbRow) = Some 1718447400000"
    by (simp add: sample_parse_def dbRow_def)
  have b: "sample_parse (created_at badRow) = None"
    by (simp add: sample_parse_def badRow_def)
  from a b toEntity_never_fails [of sample_parse dbRow] toEntity_never_fails [of sample_parse badRow]
  show ?thesis by blast
qed

lemma set_Map_set: "set (Map_set m k v) \<subseteq> insert (k, v) (set m)"
  by (induction m) (auto split: if_splits)

lemma set_Map_delete: "set (Map_delete m k) \<subseteq> set m"
  by (auto simp: Map_delete_def)

lemma ordered_new_Repo: "ordered_Repo new_Repo"
proof -
  have "map fst (users new_Repo) = map String_num [] \<and> sorted_wrt (<) ([]::nat list) \<and>
      (\<forall>k \<in> set ([]::nat list). k < nextId new_Repo \<or> (k = two53 \<and> nextId new_Repo = two53))"
    by (simp add: new_Repo_def)
  then have "\<exists>ks. map fst (users new_Repo) = map String_num ks \<and> sorted_wrt (<) ks \<and>
      (\<forall>k \<in> set ks. k < nextId new_Repo \<or> (k = two53 \<and> nextId new_Repo = two53))"
    by blast
  then show ?thesis
    by (simp add: ordered_Repo_def new_Repo_def two53_def)
qed

lemma users_create:
  "users (snd (create s data now)) =
     Map_set (users s) (String_num (nextId s)) (fst (create s data now))"
  by (simp add: create_def Let_def)

lemma ordered_create: "ordered_Repo s \<Longrightarrow> ordered_Repo (snd (create s data now))"
proof -
  assume o: "ordered_Repo s"
  let ?n = "nextId s"
  let ?s' = "snd (create s data now)"
  let ?u = "fst (create s data now)"
  from o obtain ks where
    le: "?n \<le> two53" and
    keys: "map fst (users s) = map String_num ks" and
    sorted: "sorted_wrt (<) ks" and
    below: "\<forall>k \<in> set ks. k < ?n \<or> (k = two53 \<and> ?n = two53)"
    unfolding ordered_Repo_def by blast
  have n': "nextId ?s' = incr ?n" by (rule nextId_create)
  have le': "nextId ?s' \<le> two53" using le by (simp add: n' incr_def)
  have mem: "(String_num ?n \<in> set (map fst (users s))) = (?n \<in> set ks)"
    by (auto simp: keys String_num_inj)
  have "\<exists>ks'. map fst (users ?s') = map String_num ks' \<and> sorted_wrt (<) ks' \<and>
      (\<forall>k \<in> set ks'. k < nextId ?s' \<or> (k = two53 \<and> nextId ?s' = two53))"
  proof (cases "?n \<in> set ks")
    case True
    with below have sat: "?n = two53" by auto
    from True mem have "String_num ?n \<in> set (map fst (users s))" by blast
    then have "map fst (users ?s') = map fst (users s)"
      by (simp only: users_create keys_Map_set if_True)
    then have "map fst (users ?s') = map String_num ks"
      by (simp only: keys)
    moreover have "\<forall>k \<in> set ks. k < nextId ?s' \<or> (k = two53 \<and> nextId ?s' = two53)"
      using below sat by (simp add: n' incr_def)
    ultimately show ?thesis using sorted by blast
  next
    case False
    have lt: "\<forall>k \<in> set ks. k < ?n"
      using below False by auto
    from False mem have "String_num ?n \<notin> set (map fst (users s))" by blast
    then have "map fst (users ?s') = map fst (users s) @ [String_num ?n]"
      by (simp only: users_create keys_Map_set if_False)
    then have "map fst (users ?s') = map String_num (ks @ [?n])"
      by (simp add: keys)
    moreover have "sorted_wrt (<) (ks @ [?n])"
      using sorted lt by (simp add: sorted_wrt_append)
    moreover have "\<forall>k \<in> set (ks @ [?n]). k < nextId ?s' \<or> (k = two53 \<and> nextId ?s' = two53)"
      using lt le by (auto simp: n' incr_def)
    ultimately show ?thesis by blast
  qed
  with le' show ?thesis unfolding ordered_Repo_def by blast
qed

lemma ordered_update: "ordered_Repo s \<Longrightarrow> ordered_Repo (snd (update s i data))"
proof (cases "findById s i")
  case None
  assume "ordered_Repo s"
  then show ?thesis by (simp add: update_absent [OF None])
next
  case (Some u)
  assume o: "ordered_Repo s"
  let ?s' = "snd (update s i data)"
  from o obtain ks where
    le: "nextId s \<le> two53" and
    keys: "map fst (users s) = map String_num ks" and
    sorted: "sorted_wrt (<) ks" and
    below: "\<forall>k \<in> set ks. k < nextId s \<or> (k = two53 \<and> nextId s = two53)"
    unfolding ordered_Repo_def by blast
  have "map fst (users ?s') = map fst (users s)" "nextId ?s' = nextId s"
    by (simp_all add: keys_update [OF Some] nextId_update)
  with keys sorted below le show ?thesis
    unfolding ordered_Repo_def by auto
qed

lemma ordered_delete: "ordered_Repo s \<Longrightarrow> ordered_Repo (snd (delete s i))"
proof (cases "findById s i")
  case None
  assume "ordered_Repo s"
  then show ?thesis by (simp add: delete_absent [OF None])
next
  case (Some u)
  assume o: "ordered_Repo s"
  let ?s' = "snd (delete s i)"
  from o obtain ks where
    le: "nextId s \<le> two53" and
    keys: "map fst (users s) = map String_num ks" and
    sorted: "sorted_wrt (<) ks" and
    below: "\<forall>k \<in> set ks. k < nextId s \<or> (k = two53 \<and> nextId s = two53)"
    unfolding ordered_Repo_def by blast
  from Some have p: "findById s i \<noteq> None" by simp
  have us: "users ?s' = Map_delete (users s) i" and n: "nextId ?s' = nextId s"
    by (simp_all add: delete_present [OF p])
  let ?ks' = "filter (\<lambda>k. String_num k \<noteq> i) ks"
  have "map fst (users ?s') = map String_num ?ks'"
    by (simp add: us keys_Map_delete keys filter_map comp_def)
  moreover have "sorted_wrt (<) ?ks'"
    using sorted by (rule sorted_wrt_filter)
  moreover have "\<forall>k \<in> set ?ks'. k < nextId ?s' \<or> (k = two53 \<and> nextId ?s' = two53)"
    using below by (simp add: n)
  ultimately have "\<exists>ks'. map fst (users ?s') = map String_num ks' \<and> sorted_wrt (<) ks' \<and>
      (\<forall>k \<in> set ks'. k < nextId ?s' \<or> (k = two53 \<and> nextId ?s' = two53))"
    by blast
  with le n show ?thesis unfolding ordered_Repo_def by simp
qed

lemma ordered_step: "ordered_Repo s \<Longrightarrow> ordered_Repo (step s c)"
  by (cases c) (simp_all add: ordered_create ordered_update ordered_delete)

lemma ordered_run: "ordered_Repo s \<Longrightarrow> ordered_Repo (run s ops)"
  unfolding run_def by (induction ops arbitrary: s) (simp_all add: ordered_step)

lemma ordered_distinct_keys: "ordered_Repo s \<Longrightarrow> distinct (map fst (users s))"
proof -
  assume "ordered_Repo s"
  then obtain ks where keys: "map fst (users s) = map String_num ks" and sorted: "sorted_wrt (<) ks"
    unfolding ordered_Repo_def by blast
  from sorted have "distinct ks" by (simp add: strict_sorted_iff)
  then show ?thesis by (simp add: keys distinct_map inj_on_def String_num_inj)
qed

lemma Map_get_distinct: "distinct (map fst m) \<Longrightarrow> (Map_get m k = Some v) = ((k, v) \<in> set m)"
  by (induction m) (force split: if_splits)+

lemma ordered_keys:
  "ordered_Repo s \<Longrightarrow> \<exists>ks. map fst (users s) = map String_num ks \<and> sorted_wrt (<) ks"
  unfolding ordered_Repo_def by blast

lemma ordered_findAll_stored:
  "ordered_Repo s \<Longrightarrow> (u \<in> set (findAll s)) = (\<exists>i. findById s i = Some u)"
proof -
  assume "ordered_Repo s"
  then have "distinct (map fst (users s))" by (rule ordered_distinct_keys)
  then have "(\<exists>i. findById s i = Some u) = (\<exists>i. (i, u) \<in> set (users s))"
    by (simp add: findById_def Map_get_distinct)
  also have "\<dots> = (u \<in> set (findAll s))"
    by (force simp: findAll_def Map_values_def)
  finally show ?thesis by simp
qed

lemma values_Map_set: "set (Map_values (Map_set m k v)) \<subseteq> insert v (set (Map_values m))"
  using set_Map_set [of m k v] by (auto simp: Map_values_def)

lemma values_Map_delete: "set (Map_values (Map_delete m k)) \<subseteq> set (Map_values m)"
  using set_Map_delete [of m k] by (auto simp: Map_values_def)

lemma wf_new_World: "wf new_World"
  by (simp add: wf_def new_World_def Map_values_def)

lemma wf_r_create: "wf w \<Longrightarrow> wf (snd (r_create w data now))"
  using values_Map_set [of "users_r w" "String_num (nextId_r w)" "length (objs w)"]
  by (fastforce simp: wf_def r_create_def Let_def less_Suc_eq)

lemma wf_r_update: "wf w \<Longrightarrow> wf (snd (r_update w i data))"
  using values_Map_set [of "users_r w" i "length (objs w)"]
  by (fastforce simp: wf_def r_update_def Let_def less_Suc_eq split: option.splits)

lemma wf_r_delete: "wf w \<Longrightarrow> wf (snd (r_delete w i))"
  using values_Map_delete [of "users_r w" i]
  by (fastforce simp: wf_def r_delete_def)

lemma wf_r_findAll: "wf w \<Longrightarrow> wf (snd (r_findAll w))"
  by (auto simp: wf_def r_findAll_def)

lemma wf_r_step: "wf w \<Longrightarrow> wf (r_step w c)"
  by (cases c) (simp_all add: wf_r_create wf_r_update wf_r_delete wf_r_findAll)

lemma wf_r_run_from: "wf w \<Longrightarrow> wf (r_run w ops)"
  unfolding r_run_def by (induction ops arbitrary: w) (simp_all add: wf_r_step)

lemma wf_r_run: "wf (r_run new_World ops)"
  by (rule wf_r_run_from [OF wf_new_World])

lemma map_vals_Map_set:
  "map (\<lambda>(k, r). (k, g r)) (Map_set m k v) = Map_set (map (\<lambda>(k, r). (k, g r)) m) k (g v)"
  by (induction m) auto

lemma map_vals_Map_delete:
  "map (\<lambda>(k, r). (k, g r)) (Map_delete m k) = Map_delete (map (\<lambda>(k, r). (k, g r)) m) k"
  by (induction m) (auto simp: Map_delete_def)

lemma Map_get_map_vals:
  "Map_get (map (\<lambda>(k, r). (k, g r)) m) k = map_option g (Map_get m k)"
  by (induction m) auto

lemma deref_append:
  "\<forall>r \<in> set (Map_values m). r < length h \<Longrightarrow>
   map (\<lambda>(k, r). (k, (h @ x) ! r)) m = map (\<lambda>(k, r). (k, h ! r)) m"
  by (induction m) (auto simp: Map_values_def nth_append)

lemma repo_of_r_create:
  assumes "wf w"
  shows "repo_of (snd (r_create w data now)) = snd (create (repo_of w) data now)"
proof -
  let ?u = "new_User (String_num (nextId_r w)) (c_name data) (c_email data) now"
  from assms have v: "\<forall>r \<in> set (Map_values (users_r w)). r < length (objs w)"
    by (simp add: wf_def)
  have "map (\<lambda>(k, r). (k, (objs w @ [?u]) ! r))
          (Map_set (users_r w) (String_num (nextId_r w)) (length (objs w))) =
        Map_set (map (\<lambda>(k, r). (k, (objs w @ [?u]) ! r)) (users_r w))
          (String_num (nextId_r w)) ((objs w @ [?u]) ! length (objs w))"
    by (rule map_vals_Map_set)
  also have "\<dots> = Map_set (map (\<lambda>(k, r). (k, objs w ! r)) (users_r w)) (String_num (nextId_r w)) ?u"
    by (simp add: deref_append [OF v])
  finally show ?thesis
    by (simp add: repo_of_def r_create_def create_def Let_def)
qed

lemma repo_of_r_update:
  assumes "wf w"
  shows "repo_of (snd (r_update w i data)) = snd (update (repo_of w) i data)"
proof (cases "Map_get (users_r w) i")
  case None
  then have "Map_get (users (repo_of w)) i = None"
    by (simp add: repo_of_def Map_get_map_vals)
  with None show ?thesis by (simp add: r_update_def update_def)
next
  case (Some r)
  let ?u = "spread (objs w ! r) data"
  from assms have v: "\<forall>r \<in> set (Map_values (users_r w)). r < length (objs w)"
    by (simp add: wf_def)
  have g: "Map_get (users (repo_of w)) i = Some (objs w ! r)"
    using Some by (simp add: repo_of_def Map_get_map_vals)
  have "map (\<lambda>(k, r). (k, (objs w @ [?u]) ! r)) (Map_set (users_r w) i (length (objs w))) =
        Map_set (map (\<lambda>(k, r). (k, (objs w @ [?u]) ! r)) (users_r w)) i
          ((objs w @ [?u]) ! length (objs w))"
    by (rule map_vals_Map_set)
  also have "\<dots> = Map_set (map (\<lambda>(k, r). (k, objs w ! r)) (users_r w)) i ?u"
    by (simp add: deref_append [OF v])
  finally have "map (\<lambda>(k, r). (k, (objs w @ [?u]) ! r)) (Map_set (users_r w) i (length (objs w))) =
      Map_set (users (repo_of w)) i ?u"
    by (simp add: repo_of_def)
  then show ?thesis
    using Some g by (simp add: r_update_def update_def Let_def repo_of_def)
qed

lemma repo_of_r_delete: "repo_of (snd (r_delete w i)) = snd (delete (repo_of w) i)"
  by (simp add: r_delete_def delete_def repo_of_def Map_has_def Map_get_map_vals map_vals_Map_delete)

lemma repo_of_r_findAll: "repo_of (snd (r_findAll w)) = repo_of w"
  by (simp add: r_findAll_def repo_of_def)

lemma repo_of_r_step: "wf w \<Longrightarrow> repo_of (r_step w c) = step (repo_of w) c"
  by (cases c) (simp_all add: repo_of_r_create repo_of_r_update repo_of_r_delete repo_of_r_findAll)

lemma repo_of_r_run_from: "wf w \<Longrightarrow> repo_of (r_run w ops) = run (repo_of w) ops"
  unfolding r_run_def run_def
  by (induction ops arbitrary: w) (simp_all add: repo_of_r_step wf_r_step)

lemma repo_of_new_World: "repo_of new_World = new_Repo"
  by (simp add: repo_of_def new_World_def new_Repo_def)

lemma repo_of_r_run: "repo_of (r_run new_World ops) = run new_Repo ops"
  using repo_of_r_run_from [OF wf_new_World, of ops] by (simp add: repo_of_new_World)

lemma read_array_r_findAll:
  "read_array (snd (r_findAll w)) (fst (r_findAll w)) = findAll (repo_of w)"
  by (simp add: read_array_def r_findAll_def findAll_def repo_of_def Map_values_def split_beta)

lemma objs_r_step: "\<exists>new. objs (r_step w c) = objs w @ new"
  by (cases c) (simp_all add: r_create_def r_update_def r_delete_def r_findAll_def Let_def
      split: option.splits)

lemma arrs_r_step: "\<exists>new. arrs (r_step w c) = arrs w @ new"
  by (cases c) (simp_all add: r_create_def r_update_def r_delete_def r_findAll_def Let_def
      split: option.splits)

lemma read_array_r_step:
  assumes "wf w" and "a < length (arrs w)"
  shows "read_array (r_step w c) a = read_array w a \<and> a < length (arrs (r_step w c))"
proof -
  obtain no where o: "objs (r_step w c) = objs w @ no" using objs_r_step by blast
  obtain na where a: "arrs (r_step w c) = arrs w @ na" using arrs_r_step by blast
  from assms(2) have "arrs w ! a \<in> set (arrs w)" by (rule nth_mem)
  with assms(1) have "\<forall>r \<in> set (arrs w ! a). r < length (objs w)"
    by (simp add: wf_def)
  then have "map (\<lambda>r. (objs w @ no) ! r) (arrs w ! a) = map (\<lambda>r. objs w ! r) (arrs w ! a)"
    by (simp add: nth_append)
  with assms(2) show ?thesis
    by (simp add: read_array_def o a nth_append)
qed

lemma read_array_r_run_from:
  "wf w \<Longrightarrow> a < length (arrs w) \<Longrightarrow> read_array (r_run w ops) a = read_array w a"
proof (induction ops arbitrary: w)
  case Nil
  then show ?case by (simp add: r_run_def)
next
  case (Cons c ops)
  from read_array_r_step [OF Cons.prems, of c]
  have s: "read_array (r_step w c) a = read_array w a" "a < length (arrs (r_step w c))"
    by simp_all
  have "wf (r_step w c)" using Cons.prems(1) by (rule wf_r_step)
  from Cons.IH [OF this s(2)] s(1) show ?case by (simp add: r_run_def)
qed

text \<open>
  Claim C7. Take any sequence of calls on a new repository and then call \<open>findAll\<close>. The
  array it returns holds exactly the stored users, in the map's iteration order: its
  elements are the values of the map's entries, entry by entry, one for each key, and
  the keys of those entries are the numerals of strictly increasing numbers, so the
  order is the one in which the keys were handed out by \<open>create\<close>. The call leaves the
  repository as it was. Whatever calls follow (creates, updates, deletes, further
  finds), reading through that array gives the same users with the same properties. A second
  \<open>findAll\<close> right after the first returns another array with the same content, so of the
  same length.
\<close>

theorem findAll_snapshot:
  assumes "r_findAll (r_run new_World ops) = (a, w1)"
  shows "read_array w1 a = findAll (run new_Repo ops) \<and>
         repo_of w1 = run new_Repo ops \<and>
         read_array w1 a = map snd (users (run new_Repo ops)) \<and>
         distinct (map fst (users (run new_Repo ops))) \<and>
         (\<exists>ks. map fst (users (run new_Repo ops)) = map String_num ks \<and> sorted_wrt (<) ks) \<and>
         (\<forall>u. (u \<in> set (read_array w1 a)) = (\<exists>i. findById (run new_Repo ops) i = Some u)) \<and>
         (\<forall>later. read_array (r_run w1 later) a = read_array w1 a) \<and>
         (\<forall>a2 w2. r_findAll w1 = (a2, w2) \<longrightarrow>
            a2 \<noteq> a \<and> read_array w2 a2 = read_array w2 a \<and>
            length (read_array w2 a2) = length (read_array w1 a))"
proof -
  let ?w = "r_run new_World ops"
  let ?s = "run new_Repo ops"
  from assms have a: "a = fst (r_findAll ?w)" and w1: "w1 = snd (r_findAll ?w)"
    by simp_all
  have wf0: "wf ?w" by (rule wf_r_run)
  have wf1: "wf w1" unfolding w1 using wf0 by (rule wf_r_findAll)
  have o: "ordered_Repo ?s" by (rule ordered_run [OF ordered_new_Repo])
  have r0: "repo_of ?w = ?s" by (rule repo_of_r_run)
  have r1: "repo_of w1 = ?s" by (simp add: w1 repo_of_r_findAll r0)
  have c: "read_array w1 a = findAll ?s"
    by (simp add: a w1 read_array_r_findAll r0)
  have al: "a < length (arrs w1)"
    by (simp add: a w1 r_findAll_def)
  have later: "\<forall>later. read_array (r_run w1 later) a = read_array w1 a"
    using read_array_r_run_from [OF wf1 al] by blast
  have twice: "\<forall>a2 w2. r_findAll w1 = (a2, w2) \<longrightarrow>
      a2 \<noteq> a \<and> read_array w2 a2 = read_array w2 a \<and>
      length (read_array w2 a2) = length (read_array w1 a)"
  proof (intro allI impI)
    fix a2 w2
    assume f: "r_findAll w1 = (a2, w2)"
    then have a2: "a2 = fst (r_findAll w1)" and w2: "w2 = snd (r_findAll w1)" by simp_all
    have "a2 = length (arrs w1)" by (simp add: a2 r_findAll_def)
    with al have ne: "a2 \<noteq> a" by simp
    have "read_array w2 a2 = findAll (repo_of w1)"
      by (simp add: a2 w2 read_array_r_findAll)
    then have n: "read_array w2 a2 = findAll ?s" by (simp add: r1)
    have "w2 = r_run w1 [FindAll]" by (simp add: w2 r_run_def)
    with later have "read_array w2 a = read_array w1 a" by simp
    with n c ne show "a2 \<noteq> a \<and> read_array w2 a2 = read_array w2 a \<and>
      length (read_array w2 a2) = length (read_array w1 a)" by simp
  qed
  have vals: "read_array w1 a = map snd (users ?s)"
    by (simp add: c findAll_def Map_values_def)
  have ids: "\<exists>ks. map fst (users ?s) = map String_num ks \<and> sorted_wrt (<) ks"
    using o by (rule ordered_keys)
  have stored: "\<forall>u. (u \<in> set (read_array w1 a)) = (\<exists>i. findById ?s i = Some u)"
    unfolding c using ordered_findAll_stored [OF o] by blast
  have dist: "distinct (map fst (users ?s))"
    using o by (rule ordered_distinct_keys)
  from c r1 vals dist ids stored later twice show ?thesis by blast
qed

lemma main_World_eq:
  "main_World =
     \<lparr>objs = [new_User ''1'' ''Alice'' ''alice@example.com'' (Date 1000),
              new_User ''2'' ''Bob'' ''bob@example.com'' (Date 2000)],
      arrs = [],
      users_r = [(''1'', 0), (''2'', 1)],
      nextId_r = 3\<rparr>"
  by (simp add: main_World_def r_run_def r_create_def new_World_def alice_def bob_def Let_def
      String_num.simps digit_char_def incr_def two53_def)

theorem findAll_snapshot_witness:
  "r_findAll main_World = (0, snd (r_findAll main_World)) \<and>
   read_array (snd (r_findAll main_World)) 0 =
     [new_User ''1'' ''Alice'' ''alice@example.com'' (Date 1000),
      new_User ''2'' ''Bob'' ''bob@example.com'' (Date 2000)] \<and>
   read_array (r_run (snd (r_findAll main_World))
       [Delete ''2'', Update ''1'' name_patch]) 0 =
     [new_User ''1'' ''Alice'' ''alice@example.com'' (Date 1000),
      new_User ''2'' ''Bob'' ''bob@example.com'' (Date 2000)] \<and>
   findAll (repo_of (r_run (snd (r_findAll main_World))
       [Delete ''2'', Update ''1'' name_patch])) =
     [new_User ''1'' ''Alice Smith'' ''alice@example.com'' (Date 1000)]"
proof -
  have h0: "r_findAll main_World = (0, snd (r_findAll main_World))"
    by (simp add: main_World_eq r_findAll_def)
  then have h: "r_findAll (r_run new_World [Create alice (Date 1000), Create bob (Date 2000)]) =
      (0, snd (r_findAll main_World))"
    by (simp only: main_World_def [symmetric])
  have m: "run new_Repo [Create alice (Date 1000), Create bob (Date 2000)] = main_Repo"
    by (simp add: main_Repo_def)
  have f: "findAll main_Repo =
     [new_User ''1'' ''Alice'' ''alice@example.com'' (Date 1000),
      new_User ''2'' ''Bob'' ''bob@example.com'' (Date 2000)]"
    by (simp add: main_Repo_eq findAll_def Map_values_def)
  have g: "findAll (repo_of (r_run (snd (r_findAll main_World))
       [Delete ''2'', Update ''1'' name_patch])) =
     [new_User ''1'' ''Alice Smith'' ''alice@example.com'' (Date 1000)]"
    by (simp add: main_World_eq r_findAll_def r_run_def r_delete_def r_update_def Map_has_def
        Map_delete_def Let_def repo_of_def findAll_def Map_values_def name_patch_def spread_name)
  from findAll_snapshot [OF h] have
    "read_array (snd (r_findAll main_World)) 0 = findAll main_Repo"
    "read_array (r_run (snd (r_findAll main_World))
       [Delete ''2'', Update ''1'' name_patch]) 0 =
     read_array (snd (r_findAll main_World)) 0"
    unfolding m by blast+
  with f have
    "read_array (snd (r_findAll main_World)) 0 =
     [new_User ''1'' ''Alice'' ''alice@example.com'' (Date 1000),
      new_User ''2'' ''Bob'' ''bob@example.com'' (Date 2000)]"
    "read_array (r_run (snd (r_findAll main_World))
       [Delete ''2'', Update ''1'' name_patch]) 0 =
     [new_User ''1'' ''Alice'' ''alice@example.com'' (Date 1000),
      new_User ''2'' ''Bob'' ''bob@example.com'' (Date 2000)]"
    by simp_all
  with g h0 show ?thesis by blast
qed

end
